theory Spec2Isabelle
  imports Complex_Main "HOL-Library.Multiset"
begin

section \<open>Numbers, points and the array primitives the scanner uses\<close>

text \<open>
  The scanner is written in TypeScript. Coordinates are JavaScript numbers; they are
  modelled here as mathematical reals, so the development speaks about the geometry the
  code computes and not about IEEE-754 rounding. Counters and millisecond timestamps are
  integer-valued numbers and are modelled as \<open>int\<close>; pixel dimensions of a video frame or
  of a decoded image are \<open>nat\<close>.

  A corner is the object literal \<open>{ x: number; y: number }\<close>. The two fields are called
  \<open>px\<close> and \<open>py\<close> here, because \<open>x\<close> and \<open>y\<close> are needed as variable names.
\<close>

record point =
  px :: real
  py :: real

text \<open>
  \<open>Array.prototype.sort(compareFn)\<close> is a stable sort: for a consistent comparator its
  result is the one stable arrangement in which \<open>compareFn a b \<le> 0\<close> for every element
  \<open>a\<close> placed before \<open>b\<close>. Stable insertion computes exactly that arrangement: an
  element is inserted in front of the first element it does not compare greater than, and
  the elements are inserted from the right end of the array.
\<close>

fun insert_cmp :: "('a \<Rightarrow> 'a \<Rightarrow> real) \<Rightarrow> 'a \<Rightarrow> 'a list \<Rightarrow> 'a list" where
  "insert_cmp compareFn a [] = [a]"
| "insert_cmp compareFn a (b # bs) =
     (if compareFn a b \<le> 0 then a # b # bs else b # insert_cmp compareFn a bs)"

definition array_sort :: "('a \<Rightarrow> 'a \<Rightarrow> real) \<Rightarrow> 'a list \<Rightarrow> 'a list" where
  "array_sort compareFn xs = foldr (insert_cmp compareFn) xs []"

text \<open>\<open>Math.hypot(a, b)\<close>, \<open>Math.sign\<close> and \<open>Math.round\<close> (which rounds halves upwards).\<close>

definition hypot :: "real \<Rightarrow> real \<Rightarrow> real" where
  "hypot a b = sqrt (a * a + b * b)"

definition math_sign :: "real \<Rightarrow> int" where
  "math_sign r = (if r > 0 then 1 else if r < 0 then - 1 else 0)"

definition math_round :: "real \<Rightarrow> int" where
  "math_round r = \<lfloor>r + 1 / 2\<rfloor>"

section \<open>Corner ordering\<close>

text \<open>
  The centre point both ordering policies compute:
  \<open>corners.reduce((sum, corner) => sum + corner.x, 0) / corners.length\<close>, and the same for
  \<open>y\<close>.
\<close>

definition center_of :: "point list \<Rightarrow> point" where
  "center_of corners =
     \<lparr> px = foldl (\<lambda>sum corner. sum + px corner) 0 corners / real (length corners),
       py = foldl (\<lambda>sum corner. sum + py corner) 0 corners / real (length corners) \<rparr>"

text \<open>
  The list both top/bottom-split functions assemble from the four corners: the corners
  above the centre and the corners at or below it, each sorted by \<open>x\<close>, contribute their
  first and last element when they have one.
\<close>

definition split_assemble :: "point list \<Rightarrow> point list" where
  "split_assemble corners =
     (let center = center_of corners;
          top = filter (\<lambda>corner. py corner < py center) corners;
          bottom = filter (\<lambda>corner. py corner \<ge> py center) corners;
          topSorted = array_sort (\<lambda>a b. px a - px b) top;
          bottomSorted = array_sort (\<lambda>a b. px a - px b) bottom
      in (if length topSorted > 0 then [topSorted ! 0] else []) @
         (if length topSorted > 1 then [topSorted ! (length topSorted - 1)] else []) @
         (if length bottomSorted > 0 then [bottomSorted ! (length bottomSorted - 1)] else []) @
         (if length bottomSorted > 1 then [bottomSorted ! 0] else []))"

text \<open>The exported \<open>sortCorners\<close> of the detection library: it returns the assembled list.\<close>

definition sortCorners :: "point list \<Rightarrow> point list" where
  "sortCorners corners =
     (if length corners \<noteq> 4 then corners else split_assemble corners)"

text \<open>
  The \<open>sortCorners\<close> of the \<open>ImageProcessing\<close> component: the same assembly, followed by
  \<open>sortedCorners.length === 4 ? sortedCorners : corners\<close>.
\<close>

definition ImageProcessing_sortCorners :: "point list \<Rightarrow> point list" where
  "ImageProcessing_sortCorners corners =
     (if length corners \<noteq> 4 then corners
      else let sortedCorners = split_assemble corners
           in if length sortedCorners = 4 then sortedCorners else corners)"

text \<open>
  The \<open>sortCorners\<close> of the \<open>DocumentCamera\<close> component with its helper \<open>getQuadrant\<close>: the
  array is sorted by quadrant around the centre, and within a quadrant by decreasing
  distance from the centre.
\<close>

definition getQuadrant :: "point \<Rightarrow> point \<Rightarrow> int" where
  "getQuadrant p center =
     (if px p < px center \<and> py p < py center then 0
      else if px p \<ge> px center \<and> py p < py center then 1
      else if px p \<ge> px center \<and> py p \<ge> py center then 2
      else 3)"

definition quadrant_compare :: "point \<Rightarrow> point \<Rightarrow> point \<Rightarrow> real" where
  "quadrant_compare center a b =
     (let aQuadrant = getQuadrant a center;
          bQuadrant = getQuadrant b center
      in if aQuadrant \<noteq> bQuadrant then real_of_int (aQuadrant - bQuadrant)
         else let aDist = hypot (px a - px center) (py a - py center);
                  bDist = hypot (px b - px center) (py b - py center)
              in bDist - aDist)"

definition DocumentCamera_sortCorners :: "point list \<Rightarrow> point list" where
  "DocumentCamera_sortCorners corners =
     (if length corners \<noteq> 4 then corners
      else array_sort (quadrant_compare (center_of corners)) corners)"

text \<open>
  What it means for four corners to be in the order top-left, top-right, bottom-right,
  bottom-left relative to their own centre, as the top/bottom split sees it: the first two
  lie above the centre, the last two at or below it, and each pair runs left to right
  (the bottom pair is listed right to left).
\<close>

definition split_ordered :: "point list \<Rightarrow> bool" where
  "split_ordered q =
     (case q of
        [topLeft, topRight, bottomRight, bottomLeft] \<Rightarrow>
          py topLeft < py (center_of q) \<and> py topRight < py (center_of q) \<and>
          py bottomRight \<ge> py (center_of q) \<and> py bottomLeft \<ge> py (center_of q) \<and>
          px topLeft \<le> px topRight \<and> px bottomLeft \<le> px bottomRight
      | _ \<Rightarrow> False)"

section \<open>Geometry of a detected quadrilateral\<close>

text \<open>
  \<open>calculateQuadrilateralArea\<close>: the shoelace loop over \<open>i = 0 .. corners.length - 1\<close>
  with \<open>j = (i + 1) % corners.length\<close>, then \<open>Math.abs(area) / 2\<close>.
\<close>

definition calculateQuadrilateralArea :: "point list \<Rightarrow> real" where
  "calculateQuadrilateralArea corners =
     \<bar>foldl (\<lambda>area i. let j = (i + 1) mod length corners
                       in area + px (corners ! i) * py (corners ! j)
                               - px (corners ! j) * py (corners ! i))
            0 [0..<length corners]\<bar> / 2"

text \<open>
  \<open>calculateQuadrilateralDimensions\<close> reads \<open>corners[0]\<close> to \<open>corners[3]\<close>. On an array
  with fewer than four elements the property access on \<open>undefined\<close> throws; that outcome
  is \<open>None\<close>.
\<close>

record dimensions =
  width :: real
  height :: real

definition calculateQuadrilateralDimensions :: "point list \<Rightarrow> dimensions option" where
  "calculateQuadrilateralDimensions corners =
     (if length corners < 4 then None
      else let width1 = hypot (px (corners ! 1) - px (corners ! 0)) (py (corners ! 1) - py (corners ! 0));
               width2 = hypot (px (corners ! 2) - px (corners ! 3)) (py (corners ! 2) - py (corners ! 3));
               height1 = hypot (px (corners ! 3) - px (corners ! 0)) (py (corners ! 3) - py (corners ! 0));
               height2 = hypot (px (corners ! 2) - px (corners ! 1)) (py (corners ! 2) - py (corners ! 1))
           in Some \<lparr> width = (width1 + width2) / 2, height = (height1 + height2) / 2 \<rparr>)"

text \<open>
  \<open>isConvexQuadrilateral\<close>: the loop keeps the sign of the first cross product and
  returns \<open>false\<close> at the first later cross product whose \<open>Math.sign\<close> differs.
\<close>

definition edge_cross :: "point list \<Rightarrow> nat \<Rightarrow> real" where
  "edge_cross corners i =
     (let j = (i + 1) mod length corners;
          k = (i + 2) mod length corners;
          dx1 = px (corners ! j) - px (corners ! i);
          dy1 = py (corners ! j) - py (corners ! i);
          dx2 = px (corners ! k) - px (corners ! j);
          dy2 = py (corners ! k) - py (corners ! j)
      in dx1 * dy2 - dy1 * dx2)"

fun convex_loop :: "point list \<Rightarrow> int \<Rightarrow> nat list \<Rightarrow> bool" where
  "convex_loop corners sign [] = True"
| "convex_loop corners sign (i # rest) =
     (let cross = edge_cross corners i
      in if i = 0 then convex_loop corners (math_sign cross) rest
         else if math_sign cross \<noteq> sign then False
         else convex_loop corners sign rest)"

definition isConvexQuadrilateral :: "point list \<Rightarrow> bool" where
  "isConvexQuadrilateral corners =
     (if length corners \<noteq> 4 then False
      else convex_loop corners 0 [0..<length corners])"

section \<open>Detection quality\<close>

text \<open>
  The video element behind \<open>videoRef.current\<close>; the ref is \<open>None\<close> while no element is
  mounted.
\<close>

record video =
  videoWidth :: nat
  videoHeight :: nat

text \<open>
  \<open>evaluateDetectionQuality\<close>. The dimensions are computed after the length check, so
  the \<open>None\<close> branch below is never taken.
\<close>

definition evaluateDetectionQuality :: "video option \<Rightarrow> point list \<Rightarrow> bool" where
  "evaluateDetectionQuality videoRef corners =
     (case videoRef of
        None \<Rightarrow> False
      | Some v \<Rightarrow>
          if length corners \<noteq> 4 then False
          else let screenArea = real (videoWidth v * videoHeight v);
                   area = calculateQuadrilateralArea corners;
                   areaRatio = area / screenArea
               in case calculateQuadrilateralDimensions corners of
                    None \<Rightarrow> False
                  | Some d \<Rightarrow>
                      let aspectRatio = width d / height d;
                          idealA4Ratio = 1 / 1.414;
                          aspectRatioTolerance = 0.3;
                          isA4Ratio = (\<bar>aspectRatio - idealA4Ratio\<bar> < aspectRatioTolerance \<or>
                                       \<bar>aspectRatio - 1.414\<bar> < aspectRatioTolerance);
                          isConvex = isConvexQuadrilateral corners
                      in areaRatio > 0.1 \<and> areaRatio < 0.9 \<and> isA4Ratio \<and> isConvex)"

section \<open>The state of the camera component\<close>

text \<open>
  The React state of \<open>DocumentCamera\<close> that detection, stability tracking and capture
  read and write. \<open>stableDetectionCount\<close>, \<open>consecutiveGoodDetections\<close>,
  \<open>lastGoodDetectionTime\<close> and \<open>autoCapturing\<close> are the stability state.
\<close>

record camera_state =
  detectedCorners :: "point list option"
  isGoodDetection :: bool
  stableDetectionCount :: int
  autoCapturing :: bool
  autoMode :: bool
  lastGoodDetectionTime :: int
  consecutiveGoodDetections :: int
  showGuide :: bool

text \<open>The initial values given to \<open>useState\<close>.\<close>

definition initial_state :: camera_state where
  "initial_state =
     \<lparr> detectedCorners = None, isGoodDetection = False, stableDetectionCount = 0,
       autoCapturing = False, autoMode = True, lastGoodDetectionTime = 0,
       consecutiveGoodDetections = 0, showGuide = True \<rparr>"

text \<open>
  One processing cycle of \<open>detectDocument\<close>: the body that runs once the frame interval
  has passed, the video element \<open>v\<close> and the processing canvas are there and no other
  cycle is in progress. \<open>cvResult\<close> is what
  \<open>detectDocumentWithCV()\<close> returned for the frame (\<open>None\<close> for \<open>null\<close>) and \<open>now\<close> is
  \<open>Date.now()\<close>. The functional updaters \<open>prev => ...\<close> act on the current counters.
\<close>

definition detectDocument :: "video \<Rightarrow> point list option \<Rightarrow> int \<Rightarrow> camera_state \<Rightarrow> camera_state" where
  "detectDocument v cvResult now s =
     (case (case cvResult of None \<Rightarrow> None
                           | Some corners \<Rightarrow> if length corners = 4 then Some corners else None) of
        Some corners \<Rightarrow>
          (let isGood = evaluateDetectionQuality (Some v) corners;
               s1 = s\<lparr> detectedCorners := Some corners, isGoodDetection := isGood \<rparr>
           in if isGood
              then s1\<lparr> consecutiveGoodDetections :=
                          (if now - lastGoodDetectionTime s < 300
                           then consecutiveGoodDetections s + 1 else 1),
                        lastGoodDetectionTime := now,
                        stableDetectionCount := min (stableDetectionCount s + 1) 20,
                        showGuide := (if showGuide s then False else showGuide s) \<rparr>
              else s1\<lparr> consecutiveGoodDetections := 0,
                        stableDetectionCount := max (stableDetectionCount s - 1) 0 \<rparr>)
      | None \<Rightarrow>
          (let s1 = s\<lparr> consecutiveGoodDetections := 0,
                        stableDetectionCount := max (stableDetectionCount s - 1) 0 \<rparr>
           in if stableDetectionCount s \<le> 3
              then s1\<lparr> detectedCorners := None, isGoodDetection := False,
                        showGuide := (if \<not> showGuide s then True else showGuide s) \<rparr>
              else s1))"

text \<open>
  The auto-capture effect. It returns the new state and, when it fires, the delay in
  milliseconds after which \<open>handleCapture\<close> is scheduled.
\<close>

definition autoCaptureEffect :: "camera_state \<Rightarrow> camera_state \<times> nat option" where
  "autoCaptureEffect s =
     (if autoMode s \<and> consecutiveGoodDetections s \<ge> 3 \<and> \<not> autoCapturing s
      then (s\<lparr> autoCapturing := True \<rparr>, Some 200)
      else if autoMode s \<and> stableDetectionCount s \<ge> 10 \<and> \<not> autoCapturing s
      then (s\<lparr> autoCapturing := True \<rparr>, Some 300)
      else (s, None))"

text \<open>
  \<open>handleCapture\<close>. The environment says whether the video element, the capture canvas
  and its 2D context are there, and gives the data URL of the current frame. The function
  writes no component state; its result is the call \<open>onCapture(imageUri, detectedCorners)\<close>
  when it is made.
\<close>

record capture_env =
  videoRef :: "video option"
  canvasPresent :: bool
  contextPresent :: bool
  frameUri :: string

definition handleCapture :: "capture_env \<Rightarrow> camera_state \<Rightarrow> camera_state \<times> (string \<times> point list) option" where
  "handleCapture env s =
     (case detectedCorners s of
        None \<Rightarrow> (s, None)
      | Some corners \<Rightarrow>
          if videoRef env = None \<or> \<not> canvasPresent env then (s, None)
          else if \<not> contextPresent env then (s, None)
          else (s, Some (frameUri env, corners)))"

text \<open>\<open>toggleAutoMode\<close> and \<open>simulateDocumentDetection\<close>.\<close>

definition toggleAutoMode :: "camera_state \<Rightarrow> camera_state" where
  "toggleAutoMode s =
     s\<lparr> autoMode := \<not> autoMode s, stableDetectionCount := 0, consecutiveGoodDetections := 0 \<rparr>"

definition simulateDocumentDetection :: "video option \<Rightarrow> camera_state \<Rightarrow> camera_state" where
  "simulateDocumentDetection vref s =
     (case vref of
        None \<Rightarrow> s
      | Some v \<Rightarrow>
          let centerX = real (videoWidth v) / 2;
              centerY = real (videoHeight v) / 2;
              aspectRatio = 1.414;
              docHeight = (if videoWidth v > videoHeight v then real (videoHeight v) * 0.7
                           else (real (videoWidth v) * 0.7) * aspectRatio);
              docWidth = (if videoWidth v > videoHeight v then docHeight / aspectRatio
                          else real (videoWidth v) * 0.7);
              corners = [\<lparr> px = centerX - docWidth / 2, py = centerY - docHeight / 2 \<rparr>,
                         \<lparr> px = centerX + docWidth / 2, py = centerY - docHeight / 2 \<rparr>,
                         \<lparr> px = centerX + docWidth / 2, py = centerY + docHeight / 2 \<rparr>,
                         \<lparr> px = centerX - docWidth / 2, py = centerY + docHeight / 2 \<rparr>]
          in s\<lparr> detectedCorners := Some corners, isGoodDetection := True,
                stableDetectionCount := 15 \<rparr>)"

text \<open>
  The states the component can be in: from the initial state, by any processing cycle,
  by the auto-capture effect, by a capture, by toggling the capture mode and by the
  simulated detection.
\<close>

inductive reachable :: "camera_state \<Rightarrow> bool" where
  reach_initial: "reachable initial_state"
| reach_detect: "reachable s \<Longrightarrow> reachable (detectDocument v cvResult now s)"
| reach_effect: "reachable s \<Longrightarrow> reachable (fst (autoCaptureEffect s))"
| reach_capture: "reachable s \<Longrightarrow> reachable (fst (handleCapture env s))"
| reach_toggle: "reachable s \<Longrightarrow> reachable (toggleAutoMode s)"
| reach_simulate: "reachable s \<Longrightarrow> reachable (simulateDocumentDetection vref s)"

section \<open>Normalising the cropped image\<close>

text \<open>
  \<open>correctPerspective\<close>, as far as the size of its output goes. The arguments say whether
  the output canvas and its 2D context are there and give the width and height of the
  decoded cropped image. \<open>None\<close> stands for \<open>resolve(croppedImageUri)\<close>, the cropped
  image handed back as it came; \<open>Some (outputWidth, outputHeight)\<close> is the size of the
  canvas whose content is returned.
\<close>

definition correctPerspective :: "bool \<Rightarrow> bool \<Rightarrow> nat \<Rightarrow> nat \<Rightarrow> (int \<times> int) option" where
  "correctPerspective outputCanvasPresent outputCtxPresent imgWidth imgHeight =
     (if \<not> outputCanvasPresent then None
      else let aspectRatio = real imgWidth / real imgHeight;
               outputWidth = (if imgHeight > imgWidth then 1240
                              else math_round (1240 * aspectRatio));
               outputHeight = (if imgHeight > imgWidth then math_round (1240 / aspectRatio)
                               else 1240)
           in if \<not> outputCtxPresent then None
              else Some (outputWidth, outputHeight))"

section \<open>Processing cycles\<close>

text \<open>
  A detection result counts as a good sample when \<open>detectDocumentWithCV\<close> returned four
  corners and \<open>evaluateDetectionQuality\<close> accepted them; this is the condition under which
  \<open>detectDocument\<close> takes its \<open>isGood\<close> branch.
\<close>

definition good_sample :: "video \<Rightarrow> point list option \<Rightarrow> bool" where
  "good_sample v cvResult =
     (case cvResult of None \<Rightarrow> False
      | Some corners \<Rightarrow> length corners = 4 \<and> evaluateDetectionQuality (Some v) corners)"

text \<open>
  React runs the auto-capture effect after the render that follows a processing cycle.
  \<open>cycle\<close> is one processing cycle followed by the effect; \<open>run\<close> feeds a list of
  samples (detection result and \<open>Date.now()\<close>) through successive cycles and counts how
  often the effect fired.
\<close>

definition cycle :: "video \<Rightarrow> point list option \<times> int \<Rightarrow> camera_state \<Rightarrow> camera_state \<times> nat option" where
  "cycle vref sample s = autoCaptureEffect (detectDocument vref (fst sample) (snd sample) s)"

fun run :: "video \<Rightarrow> (point list option \<times> int) list \<Rightarrow> camera_state \<Rightarrow> camera_state \<times> nat" where
  "run vref [] s = (s, 0)"
| "run vref (sample # rest) s =
     (case cycle vref sample s of
        (s1, fired) \<Rightarrow>
          (case run vref rest s1 of
             (s2, n) \<Rightarrow> (s2, (if fired = None then 0 else 1) + n)))"

section \<open>Capture requests and the page\<close>

text \<open>
  The page component \<open>DocumentScannerApp\<close>, as far as a capture touches it. Its
  \<open>handleCapture\<close> is the \<open>onCapture\<close> prop of the camera. The page renders
  \<open>DocumentCamera\<close> only while \<open>step === "camera" && !useFallback\<close>; once it is no
  longer rendered the component is unmounted and its state is gone.
\<close>

datatype step = Initial | CameraStep | Processing | Preview

record page_state =
  step :: step
  capturedImage :: "string option"
  documentCorners :: "point list option"
  useFallback :: bool

definition DocumentScannerApp_handleCapture :: "string \<Rightarrow> point list \<Rightarrow> page_state \<Rightarrow> page_state" where
  "DocumentScannerApp_handleCapture imageUri corners p =
     p\<lparr> capturedImage := Some imageUri, documentCorners := Some corners, step := Processing \<rparr>"

definition cameraRendered :: "page_state \<Rightarrow> bool" where
  "cameraRendered p = (step p = CameraStep \<and> \<not> useFallback p)"

text \<open>
  The page together with the state of the camera component, \<open>None\<close> once the component is
  unmounted.
\<close>

record app_state =
  page :: page_state
  camera :: "camera_state option"

text \<open>
  What a call of the camera's \<open>handleCapture\<close> leaves behind, given the \<open>onCapture\<close> call
  it made, if any: without a call nothing changes; with one the page handles it and is
  rendered again, and the camera keeps its state only if it is still rendered.
\<close>

definition afterHandleCapture :: "page_state \<Rightarrow> camera_state \<Rightarrow> (string \<times> point list) option \<Rightarrow> app_state" where
  "afterHandleCapture p s call =
     (case call of
        None \<Rightarrow> \<lparr> page = p, camera = Some s \<rparr>
      | Some (imageUri, corners) \<Rightarrow>
          let p' = DocumentScannerApp_handleCapture imageUri corners p
          in \<lparr> page = p', camera = (if cameraRendered p' then Some s else None) \<rparr>)"

text \<open>
  The manual request: the capture button has \<open>onClick={handleCapture}\<close> and
  \<open>disabled={!isGoodDetection || autoCapturing}\<close>, so a click on the disabled button does
  nothing.
\<close>

definition captureButtonClick :: "capture_env \<Rightarrow> page_state \<Rightarrow> camera_state \<Rightarrow> app_state" where
  "captureButtonClick env p s =
     (if \<not> isGoodDetection s \<or> autoCapturing s then \<lparr> page = p, camera = Some s \<rparr>
      else case handleCapture env s of (s', call) \<Rightarrow> afterHandleCapture p s' call)"

text \<open>
  The automatic path: the effect, when it fires, sets \<open>autoCapturing\<close> and starts a timer of
  200 or 300 ms. Processing cycles go on while the timer runs; \<open>samples\<close> are the ones that
  fall into the delay. The timer then calls the \<open>handleCapture\<close> of the render in which the
  effect ran: it reads the \<open>detectedCorners\<close> of that render and, through the refs, the
  video element, canvas and frame present when the timer fires, which is what \<open>env\<close>
  describes.
\<close>

definition autoCapture :: "video \<Rightarrow> capture_env \<Rightarrow> page_state \<Rightarrow> (point list option \<times> int) list \<Rightarrow> camera_state \<Rightarrow> app_state" where
  "autoCapture v env p samples s =
     (case autoCaptureEffect s of
        (s1, None) \<Rightarrow> \<lparr> page = p, camera = Some s1 \<rparr>
      | (s1, Some delay) \<Rightarrow>
          let s2 = fst (run v samples s1)
          in afterHandleCapture p s2 (snd (handleCapture env s1)))"

section \<open>The acceptance criteria in closed form\<close>

text \<open>
  The quantities the acceptance rule is stated with, written as formulas over the four
  corners and not as loops: the shoelace area
  \<open>|\<Sum> (x\<^sub>i y\<^sub>i\<^sub>+\<^sub>1 - x\<^sub>i\<^sub>+\<^sub>1 y\<^sub>i)| / 2\<close> with indices modulo 4, the Euclidean distance, and the
  ratio of the averaged opposite sides (top and bottom edge over left and right edge).
\<close>

definition shoelace_area :: "point list \<Rightarrow> real" where
  "shoelace_area q =
     \<bar>\<Sum>i<4. px (q ! i) * py (q ! ((i + 1) mod 4)) - px (q ! ((i + 1) mod 4)) * py (q ! i)\<bar> / 2"

definition euclid :: "point \<Rightarrow> point \<Rightarrow> real" where
  "euclid p q = sqrt ((px q - px p)\<^sup>2 + (py q - py p)\<^sup>2)"

definition averaged_aspect :: "point list \<Rightarrow> real" where
  "averaged_aspect q =
     ((euclid (q ! 0) (q ! 1) + euclid (q ! 3) (q ! 2)) / 2) /
     ((euclid (q ! 0) (q ! 3) + euclid (q ! 1) (q ! 2)) / 2)"

section \<open>Sample inputs\<close>

text \<open>
  A 3 by 4 upright page in a 6 by 5 frame, and four corners on one horizontal line, at
  height 5 and at height 0.
\<close>

definition page_quad :: "point list" where
  "page_quad = [\<lparr>px = 0, py = 0\<rparr>, \<lparr>px = 3, py = 0\<rparr>, \<lparr>px = 3, py = 4\<rparr>, \<lparr>px = 0, py = 4\<rparr>]"

definition small_video :: video where
  "small_video = \<lparr>videoWidth = 6, videoHeight = 5\<rparr>"

definition level_quad :: "point list" where
  "level_quad = [\<lparr>px = 0, py = 5\<rparr>, \<lparr>px = 1, py = 5\<rparr>, \<lparr>px = 2, py = 5\<rparr>, \<lparr>px = 3, py = 5\<rparr>]"

definition line_quad :: "point list" where
  "line_quad = [\<lparr>px = 0, py = 0\<rparr>, \<lparr>px = 1, py = 0\<rparr>, \<lparr>px = 2, py = 0\<rparr>, \<lparr>px = 3, py = 0\<rparr>]"

text \<open>
  An upright square, and a convex quadrilateral whose two lower corners share one \<open>x\<close>
  coordinate, together with what the top/bottom split makes of it.
\<close>

definition square_quad :: "point list" where
  "square_quad = [\<lparr>px = 0, py = 0\<rparr>, \<lparr>px = 10, py = 0\<rparr>, \<lparr>px = 10, py = 10\<rparr>, \<lparr>px = 0, py = 10\<rparr>]"

definition convex_quad :: "point list" where
  "convex_quad = [\<lparr>px = 0, py = 0\<rparr>, \<lparr>px = 9, py = 1\<rparr>, \<lparr>px = 10, py = 12\<rparr>, \<lparr>px = 10, py = 20\<rparr>]"

definition convex_sorted :: "point list" where
  "convex_sorted = [\<lparr>px = 0, py = 0\<rparr>, \<lparr>px = 9, py = 1\<rparr>, \<lparr>px = 10, py = 20\<rparr>, \<lparr>px = 10, py = 12\<rparr>]"

text \<open>
  An environment in which a capture can be made and one whose capture canvas gives no 2D
  context, the page while the camera is shown, the state right after the simulated
  detection, and the states after one and after three good detections of the page, 100 ms
  apart.
\<close>

definition no_context_env :: capture_env where
  "no_context_env = \<lparr>videoRef = Some small_video, canvasPresent = True, contextPresent = False,
                      frameUri = ''data:image/jpeg''\<rparr>"

definition camera_page :: page_state where
  "camera_page = \<lparr>step = CameraStep, capturedImage = None, documentCorners = None,
                   useFallback = False\<rparr>"

definition one_good_state :: camera_state where
  "one_good_state = detectDocument small_video (Some page_quad) 1000 initial_state"

definition three_good_state :: camera_state where
  "three_good_state =
     detectDocument small_video (Some page_quad) 1200
       (detectDocument small_video (Some page_quad) 1100 one_good_state)"

definition ready_env :: capture_env where
  "ready_env = \<lparr>videoRef = Some small_video, canvasPresent = True, contextPresent = True,
                 frameUri = ''data:image/jpeg''\<rparr>"

definition simulated_state :: camera_state where
  "simulated_state = simulateDocumentDetection (Some small_video) initial_state"

text \<open>
  The state after the simulated detection and the auto-capture effect that follows it.
\<close>

definition latched_state :: camera_state where
  "latched_state = fst (autoCaptureEffect (simulateDocumentDetection (Some small_video) initial_state))"

section \<open>Properties of the top/bottom split\<close>

lemma length_insert_cmp: "length (insert_cmp f a bs) = Suc (length bs)"
  by (induction bs) auto

lemma length_array_sort: "length (array_sort f xs) = length xs"
  by (induction xs) (auto simp: array_sort_def length_insert_cmp)

lemma foldl_add_same:
  "foldl (\<lambda>sum corner. sum + f corner) (a::real) xs = a + sum_list (map f xs)"
  by (induction xs arbitrary: a) (auto simp: algebra_simps)

lemma center_of_py: "py (center_of corners) = sum_list (map py corners) / real (length corners)"
  by (simp add: center_of_def foldl_add_same)

lemma center_of_px: "px (center_of corners) = sum_list (map px corners) / real (length corners)"
  by (simp add: center_of_def foldl_add_same)

lemma sum_list_const_py:
  "\<forall>p \<in> set corners. py p = c \<Longrightarrow> sum_list (map py corners) = real (length corners) * c"
  by (induction corners) (auto simp: algebra_simps)

lemma level_center:
  assumes "length corners = 4" and "\<forall>p \<in> set corners. py p = c"
  shows "py (center_of corners) = c"
  using sum_list_const_py [OF assms(2)] assms(1) by (simp add: center_of_py)

lemma level_split_assemble:
  assumes "length corners = 4" and "\<forall>p \<in> set corners. py p = c"
  shows "length (split_assemble corners) = 2"
proof -
  have c: "py (center_of corners) = c" by (rule level_center [OF assms])
  have top: "filter (\<lambda>corner. py corner < py (center_of corners)) corners = []"
    using assms(2) c by (auto simp: filter_empty_conv)
  have bottom: "filter (\<lambda>corner. py corner \<ge> py (center_of corners)) corners = corners"
    using assms(2) c by (auto simp: filter_id_conv)
  have len: "length (array_sort (\<lambda>a b. px a - px b) corners) = 4"
    by (simp add: length_array_sort assms(1))
  have emp: "array_sort (\<lambda>a b. px a - px b) ([]::point list) = []"
    by (simp add: array_sort_def)
  show ?thesis
    by (simp add: split_assemble_def Let_def top bottom len emp del: length_greater_0_conv)
qed

text \<open>
  C10: some four-point input makes the library's top/bottom-split \<open>sortCorners\<close> return
  fewer than four points. Whenever the four points share one \<open>y\<close> coordinate no point
  lies strictly above the centre, and the result has exactly two elements. The copy in
  \<open>ImageProcessing\<close> returns its input unchanged whenever the assembled list does not
  have exactly four elements, so it returns such an input as it is.
\<close>

theorem sortCorners_level_short:
  "(\<exists>corners. length corners = 4 \<and> length (sortCorners corners) < 4) \<and>
   (\<forall>corners c. length corners = 4 \<and> (\<forall>p \<in> set corners. py p = c)
        \<longrightarrow> length (sortCorners corners) = 2 \<and> ImageProcessing_sortCorners corners = corners) \<and>
   (\<forall>corners. length (split_assemble corners) \<noteq> 4
        \<longrightarrow> ImageProcessing_sortCorners corners = corners)"
proof (intro conjI allI impI)
  have "length (split_assemble level_quad) = 2"
    by (rule level_split_assemble [where c = 5]) (simp_all add: level_quad_def)
  moreover have "length level_quad = 4" by (simp add: level_quad_def)
  ultimately have "length level_quad = 4 \<and> length (sortCorners level_quad) < 4"
    by (simp add: sortCorners_def)
  then show "\<exists>corners. length corners = 4 \<and> length (sortCorners corners) < 4"
    by blast
next
  fix corners :: "point list" and c
  assume a: "length corners = 4 \<and> (\<forall>p \<in> set corners. py p = c)"
  then have "length (split_assemble corners) = 2"
    using level_split_assemble by blast
  then show "length (sortCorners corners) = 2" using a by (simp add: sortCorners_def)
next
  fix corners :: "point list" and c
  assume a: "length corners = 4 \<and> (\<forall>p \<in> set corners. py p = c)"
  then have "length (split_assemble corners) = 2"
    using level_split_assemble by blast
  then show "ImageProcessing_sortCorners corners = corners"
    by (simp add: ImageProcessing_sortCorners_def Let_def)
next
  fix corners :: "point list"
  assume "length (split_assemble corners) \<noteq> 4"
  then show "ImageProcessing_sortCorners corners = corners"
    by (simp add: ImageProcessing_sortCorners_def Let_def)
qed

theorem sortCorners_level_short_witness:
  "length level_quad = 4 \<and> length (split_assemble level_quad) \<noteq> 4 \<and>
   length (sortCorners level_quad) = 2 \<and> ImageProcessing_sortCorners level_quad = level_quad"
proof -
  have h: "length level_quad = 4 \<and> (\<forall>p \<in> set level_quad. py p = 5)"
    by (simp add: level_quad_def)
  then have a: "length (split_assemble level_quad) = 2"
    using level_split_assemble by blast
  from sortCorners_level_short have
    "\<forall>corners c. length corners = 4 \<and> (\<forall>p \<in> set corners. py p = c)
        \<longrightarrow> length (sortCorners corners) = 2 \<and> ImageProcessing_sortCorners corners = corners"
    by blast
  then have "length level_quad = 4 \<and> (\<forall>p \<in> set level_quad. py p = 5)
        \<longrightarrow> length (sortCorners level_quad) = 2 \<and> ImageProcessing_sortCorners level_quad = level_quad"
    by blast
  with h a show ?thesis by simp
qed

section \<open>Properties of the quality evaluator\<close>

lemma upt_4: "[0..<4] = [0, 1, 2, 3]"
  by (simp add: numeral_eq_Suc upt_conv_Cons)

lemma length_4_cases:
  assumes "length q = 4"
  obtains p0 p1 p2 p3 where "q = [p0, p1, p2, p3]"
  using assms by (auto simp: length_Suc_conv numeral_eq_Suc)

lemma sum_lessThan_4: "(\<Sum>i<(4::nat). f i) = f 0 + f 1 + f 2 + (f 3 :: real)"
  by (simp add: numeral_eq_Suc)

lemma area_is_shoelace:
  assumes "length q = 4"
  shows "calculateQuadrilateralArea q = shoelace_area q"
proof -
  from assms obtain p0 p1 p2 p3 where q: "q = [p0, p1, p2, p3]" by (rule length_4_cases)
  show ?thesis
    unfolding calculateQuadrilateralArea_def shoelace_area_def sum_lessThan_4
    by (simp add: q upt_4)
qed

lemma hypot_euclid: "hypot (px q - px p) (py q - py p) = euclid p q"
  by (simp add: hypot_def euclid_def power2_eq_square)

lemma dims_aspect:
  "length q = 4 \<Longrightarrow>
     \<exists>d. calculateQuadrilateralDimensions q = Some d \<and> width d / height d = averaged_aspect q"
  by (simp add: calculateQuadrilateralDimensions_def averaged_aspect_def Let_def hypot_euclid)

lemma isConvexQuadrilateral_signs:
  "isConvexQuadrilateral q \<longleftrightarrow>
     length q = 4 \<and>
     math_sign (edge_cross q 1) = math_sign (edge_cross q 0) \<and>
     math_sign (edge_cross q 2) = math_sign (edge_cross q 0) \<and>
     math_sign (edge_cross q 3) = math_sign (edge_cross q 0)"
  by (auto simp: isConvexQuadrilateral_def upt_4 Let_def)

lemma sqrt_9: "sqrt 9 = 3"
  using real_sqrt_abs [of 3] by simp

lemma sqrt_16: "sqrt 16 = 4"
  using real_sqrt_abs [of 4] by simp

lemma page_quad_area: "shoelace_area page_quad = 12"
  by (simp add: shoelace_area_def page_quad_def sum_lessThan_4)

lemma page_quad_aspect: "averaged_aspect page_quad = 3 / 4"
  by (simp add: averaged_aspect_def page_quad_def euclid_def sqrt_9 sqrt_16)

lemma page_quad_convex: "isConvexQuadrilateral page_quad"
  by (simp add: isConvexQuadrilateral_signs page_quad_def edge_cross_def Let_def math_sign_def)

text \<open>
  C1: for four corners and a frame of positive area, \<open>evaluateDetectionQuality\<close> accepts
  exactly when the shoelace area divided by \<open>videoWidth * videoHeight\<close> lies strictly
  between 0.1 and 0.9, the ratio of the averaged opposite sides is within 0.3 of
  \<open>1 / 1.414\<close> or within 0.3 of \<open>1.414\<close>, and the convexity test holds.
\<close>

theorem evaluateDetectionQuality_iff:
  assumes "length q = 4" and "0 < videoWidth v * videoHeight v"
  shows "evaluateDetectionQuality (Some v) q \<longleftrightarrow>
     (0.1 < shoelace_area q / real (videoWidth v * videoHeight v) \<and>
      shoelace_area q / real (videoWidth v * videoHeight v) < 0.9 \<and>
      (\<bar>averaged_aspect q - 1 / 1.414\<bar> < 0.3 \<or> \<bar>averaged_aspect q - 1.414\<bar> < 0.3) \<and>
      isConvexQuadrilateral q)"
proof -
  from dims_aspect [OF assms(1)] obtain d where
    d: "calculateQuadrilateralDimensions q = Some d" "width d / height d = averaged_aspect q"
    by blast
  show ?thesis
    unfolding evaluateDetectionQuality_def Let_def
    by (simp add: assms(1) d area_is_shoelace del: of_nat_mult)
qed

theorem evaluateDetectionQuality_iff_witness:
  "length page_quad = 4 \<and> 0 < videoWidth small_video * videoHeight small_video \<and>
   evaluateDetectionQuality (Some small_video) page_quad"
proof -
  have l: "length page_quad = 4" by (simp add: page_quad_def)
  have a: "0 < videoWidth small_video * videoHeight small_video" by (simp add: small_video_def)
  have "evaluateDetectionQuality (Some small_video) page_quad"
    unfolding evaluateDetectionQuality_iff [OF l a]
    by (simp add: page_quad_area page_quad_aspect page_quad_convex small_video_def)
  with l a show ?thesis by simp
qed

lemma page_quad_good: "evaluateDetectionQuality (Some small_video) page_quad"
proof -
  have d: "calculateQuadrilateralDimensions page_quad = Some \<lparr>width = 3, height = 4\<rparr>"
    by (simp add: calculateQuadrilateralDimensions_def page_quad_def hypot_def sqrt_9 sqrt_16)
  have "length page_quad = 4" by (simp add: page_quad_def)
  then have a: "calculateQuadrilateralArea page_quad = 12"
    by (simp add: area_is_shoelace page_quad_area)
  show ?thesis
    unfolding evaluateDetectionQuality_def Let_def
    by (simp add: d a page_quad_convex small_video_def) (simp add: page_quad_def)
qed

text \<open>
  C4: the convexity test is meant to reject every quadrilateral with a zero cross
  product. \<open>isConvexQuadrilateral\<close> compares each later sign with the sign of the first
  cross product, so on four corners of one line, where every cross product is zero, all
  signs agree and the test answers \<open>true\<close>.
\<close>

theorem isConvexQuadrilateral_line_accepted:
  "edge_cross line_quad 0 = 0 \<and> edge_cross line_quad 1 = 0 \<and>
   edge_cross line_quad 2 = 0 \<and> edge_cross line_quad 3 = 0 \<and>
   isConvexQuadrilateral line_quad"
  by (simp add: isConvexQuadrilateral_signs line_quad_def edge_cross_def Let_def math_sign_def)

section \<open>Properties of the stability tracker\<close>

lemma detect_good:
  assumes "good_sample v cvResult"
  shows "consecutiveGoodDetections (detectDocument v cvResult now s) =
           (if now - lastGoodDetectionTime s < 300 then consecutiveGoodDetections s + 1 else 1)"
    and "lastGoodDetectionTime (detectDocument v cvResult now s) = now"
    and "stableDetectionCount (detectDocument v cvResult now s) = min (stableDetectionCount s + 1) 20"
  using assms
  by (auto simp: good_sample_def detectDocument_def Let_def split: option.splits)

lemma detect_bad:
  assumes "\<not> good_sample v cvResult"
  shows "consecutiveGoodDetections (detectDocument v cvResult now s) = 0"
    and "lastGoodDetectionTime (detectDocument v cvResult now s) = lastGoodDetectionTime s"
    and "stableDetectionCount (detectDocument v cvResult now s) = max (stableDetectionCount s - 1) 0"
  using assms
  by (auto simp: good_sample_def detectDocument_def Let_def split: option.splits)

lemma detect_keeps:
  "autoCapturing (detectDocument v cvResult now s) = autoCapturing s"
  "autoMode (detectDocument v cvResult now s) = autoMode s"
  by (auto simp: detectDocument_def Let_def split: option.splits)

text \<open>
  C3: in every processing cycle, a good detection increments \<open>consecutiveGoodDetections\<close>
  when \<open>now - lastGoodDetectionTime < 300\<close> and otherwise sets it to 1, sets
  \<open>lastGoodDetectionTime\<close> to \<open>now\<close> and increments \<open>stableDetectionCount\<close> up to the cap
  of 20; a bad or absent detection sets \<open>consecutiveGoodDetections\<close> to 0 and decrements
  \<open>stableDetectionCount\<close> down to the floor of 0.
\<close>

theorem detectDocument_stability:
  "consecutiveGoodDetections (detectDocument v cvResult now s) =
     (if good_sample v cvResult
      then (if now - lastGoodDetectionTime s < 300 then consecutiveGoodDetections s + 1 else 1)
      else 0) \<and>
   lastGoodDetectionTime (detectDocument v cvResult now s) =
     (if good_sample v cvResult then now else lastGoodDetectionTime s) \<and>
   stableDetectionCount (detectDocument v cvResult now s) =
     (if good_sample v cvResult then min (stableDetectionCount s + 1) 20
      else max (stableDetectionCount s - 1) 0)"
  by (simp add: detect_good detect_bad)

lemma effect_fires:
  assumes "autoMode s" "\<not> autoCapturing s"
    "consecutiveGoodDetections s \<ge> 3 \<or> stableDetectionCount s \<ge> 10"
  shows "fst (autoCaptureEffect s) = s\<lparr>autoCapturing := True\<rparr>" "snd (autoCaptureEffect s) \<noteq> None"
  using assms by (auto simp: autoCaptureEffect_def)

lemma effect_idle:
  assumes "\<not> (autoMode s \<and> \<not> autoCapturing s \<and>
      (consecutiveGoodDetections s \<ge> 3 \<or> stableDetectionCount s \<ge> 10))"
  shows "autoCaptureEffect s = (s, None)"
  using assms by (auto simp: autoCaptureEffect_def)

lemma run_latched:
  "autoCapturing s \<Longrightarrow> snd (run v samples s) = 0 \<and> autoCapturing (fst (run v samples s))"
proof (induction samples arbitrary: s)
  case Nil
  then show ?case by simp
next
  case (Cons sample rest)
  have "autoCapturing (detectDocument v (fst sample) (snd sample) s)"
    using Cons.prems by (simp add: detect_keeps)
  then have c: "cycle v sample s = (detectDocument v (fst sample) (snd sample) s, None)"
    by (simp add: cycle_def effect_idle)
  have "autoCapturing (detectDocument v (fst sample) (snd sample) s)"
    using Cons.prems by (simp add: detect_keeps)
  from Cons.IH [OF this] show ?case
    by (simp add: c split: prod.splits)
qed


lemma cycle_cases:
  assumes "autoMode s" "\<not> autoCapturing s"
  shows "(snd (cycle v sample s) \<noteq> None \<and> autoCapturing (fst (cycle v sample s))) \<or>
         (cycle v sample s = (detectDocument v (fst sample) (snd sample) s, None) \<and>
          consecutiveGoodDetections (detectDocument v (fst sample) (snd sample) s) < 3)"
proof -
  let ?d = "detectDocument v (fst sample) (snd sample) s"
  have k: "autoMode ?d" "\<not> autoCapturing ?d" using assms by (simp_all add: detect_keeps)
  show ?thesis
  proof (cases "consecutiveGoodDetections ?d \<ge> 3 \<or> stableDetectionCount ?d \<ge> 10")
    case True
    with k have "snd (autoCaptureEffect ?d) \<noteq> None" "fst (autoCaptureEffect ?d) = ?d\<lparr>autoCapturing := True\<rparr>"
      by (simp_all add: effect_fires)
    then show ?thesis by (simp add: cycle_def)
  next
    case False
    then have "autoCaptureEffect ?d = (?d, None)" by (simp add: effect_idle)
    with False show ?thesis by (simp add: cycle_def)
  qed
qed

lemma run_fired_first:
  assumes "snd (cycle v sample s) \<noteq> None \<and> autoCapturing (fst (cycle v sample s))"
  shows "snd (run v (sample # rest) s) = 1 \<and> autoCapturing (fst (run v (sample # rest) s))"
  using assms run_latched [of "fst (cycle v sample s)" v rest]
  by (auto split: prod.splits)

lemma run_idle_first:
  assumes "cycle v sample s = (s1, None)"
  shows "run v (sample # rest) s = run v rest s1"
  using assms by (simp split: prod.splits)

lemma three_good_samples_fire_once:
  assumes s: "autoMode s" "\<not> autoCapturing s" "0 \<le> consecutiveGoodDetections s"
    and g: "good_sample v c1" "good_sample v c2" "good_sample v c3"
    and t: "t2 - t1 < 300" "t3 - t2 < 300"
  shows "snd (run v [(c1, t1), (c2, t2), (c3, t3)] s) = 1 \<and>
         autoCapturing (fst (run v [(c1, t1), (c2, t2), (c3, t3)] s))"
proof -
  let ?s1 = "detectDocument v c1 t1 s"
  let ?s2 = "detectDocument v c2 t2 ?s1"
  let ?s3 = "detectDocument v c3 t3 ?s2"
  have s1: "autoMode ?s1" "\<not> autoCapturing ?s1" using s(1,2) by (simp_all add: detect_keeps)
  have s2: "autoMode ?s2" "\<not> autoCapturing ?s2" using s1 by (simp_all add: detect_keeps)
  have l1: "lastGoodDetectionTime ?s1 = t1" using g(1) by (simp add: detect_good)
  have l2: "lastGoodDetectionTime ?s2 = t2" using g(2) by (simp add: detect_good)
  have pos: "consecutiveGoodDetections ?s1 \<ge> 1"
    using g(1) s(3) by (simp add: detect_good)
  have c2: "consecutiveGoodDetections ?s2 = consecutiveGoodDetections ?s1 + 1"
    using g(2) t(1) l1 by (simp add: detect_good)
  have c3: "consecutiveGoodDetections ?s3 = consecutiveGoodDetections ?s2 + 1"
    using g(3) t(2) l2 by (simp add: detect_good)
  from cycle_cases [OF s(1,2), of v "(c1, t1)"] show ?thesis
  proof
    assume "snd (cycle v (c1, t1) s) \<noteq> None \<and> autoCapturing (fst (cycle v (c1, t1) s))"
    then show ?thesis by (rule run_fired_first)
  next
    assume i1: "cycle v (c1, t1) s = (detectDocument v (fst (c1, t1)) (snd (c1, t1)) s, None) \<and>
          consecutiveGoodDetections (detectDocument v (fst (c1, t1)) (snd (c1, t1)) s) < 3"
    then have r1: "run v [(c1, t1), (c2, t2), (c3, t3)] s = run v [(c2, t2), (c3, t3)] ?s1"
      by (simp add: run_idle_first)
    from cycle_cases [OF s1, of v "(c2, t2)"] show ?thesis
    proof
      assume "snd (cycle v (c2, t2) ?s1) \<noteq> None \<and> autoCapturing (fst (cycle v (c2, t2) ?s1))"
      then show ?thesis unfolding r1 by (rule run_fired_first)
    next
      assume i2: "cycle v (c2, t2) ?s1 = (detectDocument v (fst (c2, t2)) (snd (c2, t2)) ?s1, None) \<and>
          consecutiveGoodDetections (detectDocument v (fst (c2, t2)) (snd (c2, t2)) ?s1) < 3"
      then have r2: "run v [(c2, t2), (c3, t3)] ?s1 = run v [(c3, t3)] ?s2"
        by (simp add: run_idle_first)
      from cycle_cases [OF s2, of v "(c3, t3)"] show ?thesis
      proof
        assume "snd (cycle v (c3, t3) ?s2) \<noteq> None \<and> autoCapturing (fst (cycle v (c3, t3) ?s2))"
        then show ?thesis unfolding r1 r2 by (rule run_fired_first)
      next
        assume i3: "cycle v (c3, t3) ?s2 = (detectDocument v (fst (c3, t3)) (snd (c3, t3)) ?s2, None) \<and>
          consecutiveGoodDetections (detectDocument v (fst (c3, t3)) (snd (c3, t3)) ?s2) < 3"
        from pos i3 c3 c2 show ?thesis by simp
      qed
    qed
  qed
qed


lemma reachable_counts:
  "reachable s \<Longrightarrow>
     0 \<le> stableDetectionCount s \<and> stableDetectionCount s \<le> 20 \<and> 0 \<le> consecutiveGoodDetections s"
proof (induction rule: reachable.induct)
  case reach_initial
  show ?case by (simp add: initial_state_def)
next
  case (reach_detect s vref cvResult now)
  then show ?case
    by (cases "good_sample vref cvResult") (simp_all add: detect_good detect_bad)
next
  case (reach_effect s)
  then show ?case by (simp add: autoCaptureEffect_def)
next
  case (reach_capture s env)
  then show ?case by (simp add: handleCapture_def split: option.splits)
next
  case (reach_toggle s)
  then show ?case by (simp add: toggleAutoMode_def)
next
  case (reach_simulate s vref)
  then show ?case by (simp add: simulateDocumentDetection_def Let_def split: option.splits)
qed

text \<open>
  C8: \<open>stableDetectionCount\<close> starts at 0 and stays within 0 and 20 in every reachable
  state: the capped increment, the floored decrement, the reset by \<open>toggleAutoMode\<close> and
  the value 15 set by \<open>simulateDocumentDetection\<close> all keep it there.
\<close>

theorem stableDetectionCount_range:
  "stableDetectionCount initial_state = 0 \<and>
   (reachable s \<longrightarrow> 0 \<le> stableDetectionCount s \<and> stableDetectionCount s \<le> 20)"
  using reachable_counts by (simp add: initial_state_def)

lemma simulated_reachable: "reachable (simulateDocumentDetection (Some small_video) initial_state)"
  by (intro reachable.intros)

theorem stableDetectionCount_range_witness:
  "reachable (simulateDocumentDetection (Some small_video) initial_state) \<and>
   stableDetectionCount (simulateDocumentDetection (Some small_video) initial_state) = 15 \<and>
   0 \<le> stableDetectionCount (simulateDocumentDetection (Some small_video) initial_state) \<and>
   stableDetectionCount (simulateDocumentDetection (Some small_video) initial_state) \<le> 20"
  using stableDetectionCount_range [of "simulateDocumentDetection (Some small_video) initial_state"]
    simulated_reachable
  by (simp add: simulateDocumentDetection_def Let_def)

text \<open>
  C2: with auto mode on and \<open>autoCapturing\<close> off, the auto-capture effect fires, setting
  \<open>autoCapturing\<close> and scheduling the capture, exactly when
  \<open>consecutiveGoodDetections \<ge> 3\<close> or \<open>stableDetectionCount \<ge> 10\<close>. Once \<open>autoCapturing\<close> is
  set, the effect does nothing and no later cycle fires. Hence three good samples in a
  row, the second and third each less than 300 ms after the one before, make the effect
  fire exactly once.
\<close>

theorem autoCapture_trigger:
  "(autoMode s \<and> \<not> autoCapturing s \<longrightarrow>
      (snd (autoCaptureEffect s) \<noteq> None \<longleftrightarrow>
         consecutiveGoodDetections s \<ge> 3 \<or> stableDetectionCount s \<ge> 10) \<and>
      (snd (autoCaptureEffect s) \<noteq> None \<longrightarrow> autoCapturing (fst (autoCaptureEffect s)))) \<and>
   (autoCapturing s \<longrightarrow>
      autoCaptureEffect s = (s, None) \<and>
      snd (run v samples s) = 0 \<and> autoCapturing (fst (run v samples s))) \<and>
   (reachable s \<and> autoMode s \<and> \<not> autoCapturing s \<and>
    good_sample v c1 \<and> good_sample v c2 \<and> good_sample v c3 \<and>
    t2 - t1 < 300 \<and> t3 - t2 < 300 \<longrightarrow>
      snd (run v [(c1, t1), (c2, t2), (c3, t3)] s) = 1 \<and>
      autoCapturing (fst (run v [(c1, t1), (c2, t2), (c3, t3)] s)))"
proof (intro conjI impI)
  assume "autoMode s \<and> \<not> autoCapturing s"
  then show "(snd (autoCaptureEffect s) \<noteq> None) =
     (consecutiveGoodDetections s \<ge> 3 \<or> stableDetectionCount s \<ge> 10)"
    by (auto simp: autoCaptureEffect_def)
next
  assume "snd (autoCaptureEffect s) \<noteq> None"
  then show "autoCapturing (fst (autoCaptureEffect s))"
    by (auto simp: autoCaptureEffect_def split: if_splits)
next
  assume "autoCapturing s"
  then show "autoCaptureEffect s = (s, None)" by (simp add: effect_idle)
next
  assume "autoCapturing s"
  then show "snd (run v samples s) = 0" by (simp add: run_latched)
next
  assume "autoCapturing s"
  then show "autoCapturing (fst (run v samples s))" by (simp add: run_latched)
next
  assume a: "reachable s \<and> autoMode s \<and> \<not> autoCapturing s \<and>
    good_sample v c1 \<and> good_sample v c2 \<and> good_sample v c3 \<and>
    t2 - t1 < 300 \<and> t3 - t2 < 300"
  then have "0 \<le> consecutiveGoodDetections s" using reachable_counts by blast
  with a three_good_samples_fire_once [of s v c1 c2 c3 t2 t1 t3]
  show "snd (run v [(c1, t1), (c2, t2), (c3, t3)] s) = 1" by blast
next
  assume a: "reachable s \<and> autoMode s \<and> \<not> autoCapturing s \<and>
    good_sample v c1 \<and> good_sample v c2 \<and> good_sample v c3 \<and>
    t2 - t1 < 300 \<and> t3 - t2 < 300"
  then have "0 \<le> consecutiveGoodDetections s" using reachable_counts by blast
  with a three_good_samples_fire_once [of s v c1 c2 c3 t2 t1 t3]
  show "autoCapturing (fst (run v [(c1, t1), (c2, t2), (c3, t3)] s))" by blast
qed

lemma page_quad_sample: "good_sample small_video (Some page_quad)"
  by (simp add: good_sample_def page_quad_good) (simp add: page_quad_def)

lemma line_quad_sample: "\<not> good_sample small_video (Some line_quad)"
proof -
  have l: "length line_quad = 4" by (simp add: line_quad_def)
  have "shoelace_area line_quad = 0"
    by (simp add: shoelace_area_def line_quad_def sum_lessThan_4)
  then have "calculateQuadrilateralArea line_quad = 0"
    using l by (simp add: area_is_shoelace)
  then show ?thesis
    by (simp add: good_sample_def evaluateDetectionQuality_def Let_def split: option.splits)
qed

theorem detectDocument_stability_witness:
  "consecutiveGoodDetections (detectDocument small_video (Some page_quad) 1000 initial_state) = 1 \<and>
   lastGoodDetectionTime (detectDocument small_video (Some page_quad) 1000 initial_state) = 1000 \<and>
   stableDetectionCount (detectDocument small_video (Some page_quad) 1000 initial_state) = 1 \<and>
   consecutiveGoodDetections (detectDocument small_video (Some line_quad) 1000 simulated_state) = 0 \<and>
   stableDetectionCount (detectDocument small_video (Some line_quad) 1000 simulated_state) = 14 \<and>
   consecutiveGoodDetections (detectDocument small_video None 1000 initial_state) = 0 \<and>
   stableDetectionCount (detectDocument small_video None 1000 initial_state) = 0"
  using detectDocument_stability [of small_video "Some page_quad" 1000 initial_state]
    detectDocument_stability [of small_video "Some line_quad" 1000 simulated_state]
    detectDocument_stability [of small_video None 1000 initial_state]
  by (simp add: page_quad_sample line_quad_sample)
     (simp add: good_sample_def initial_state_def simulated_state_def simulateDocumentDetection_def Let_def)

lemma latched_state_latched: "autoCapturing latched_state"
  by (simp add: latched_state_def autoCaptureEffect_def simulateDocumentDetection_def Let_def
      initial_state_def)

theorem autoCapture_trigger_witness:
  "reachable initial_state \<and> autoMode initial_state \<and> \<not> autoCapturing initial_state \<and>
   good_sample small_video (Some page_quad) \<and>
   snd (autoCaptureEffect initial_state) = None \<and>
   snd (run small_video [(Some page_quad, 1000), (Some page_quad, 1100), (Some page_quad, 1200)]
          initial_state) = 1 \<and>
   autoMode simulated_state \<and> \<not> autoCapturing simulated_state \<and>
   snd (autoCaptureEffect simulated_state) \<noteq> None \<and>
   autoCapturing (fst (autoCaptureEffect simulated_state)) \<and>
   autoCapturing latched_state \<and>
   autoCaptureEffect latched_state = (latched_state, None) \<and>
   snd (run small_video [(Some page_quad, 1000), (Some page_quad, 1100)] latched_state) = 0"
proof -
  have r: "reachable initial_state" by (rule reach_initial)
  have i: "autoMode initial_state" "\<not> autoCapturing initial_state"
    "\<not> (consecutiveGoodDetections initial_state \<ge> 3 \<or> stableDetectionCount initial_state \<ge> 10)"
    by (simp_all add: initial_state_def)
  have t: "(1100::int) - 1000 < 300" "(1200::int) - 1100 < 300" by simp_all
  note T1 = autoCapture_trigger [of initial_state small_video "[]" "Some page_quad"
      "Some page_quad" "Some page_quad" 1100 1000 1200]
  note T2 = autoCapture_trigger [of latched_state small_video
      "[(Some page_quad, 1000), (Some page_quad, 1100)]" "Some page_quad"
      "Some page_quad" "Some page_quad" 1100 1000 1200]
  from T1 r i t page_quad_sample have
    "snd (autoCaptureEffect initial_state) = None"
    "snd (run small_video [(Some page_quad, 1000), (Some page_quad, 1100), (Some page_quad, 1200)]
          initial_state) = 1"
    by blast+
  moreover from T2 latched_state_latched have
    "autoCaptureEffect latched_state = (latched_state, None)"
    "snd (run small_video [(Some page_quad, 1000), (Some page_quad, 1100)] latched_state) = 0"
    by blast+
  moreover have m: "autoMode simulated_state" "\<not> autoCapturing simulated_state"
    "stableDetectionCount simulated_state \<ge> 10"
    by (simp_all add: simulated_state_def simulateDocumentDetection_def Let_def initial_state_def)
  moreover from autoCapture_trigger [of simulated_state small_video "[]" None None None 0 0 0] m have
    "snd (autoCaptureEffect simulated_state) \<noteq> None"
    "autoCapturing (fst (autoCaptureEffect simulated_state))"
    by blast+
  ultimately show ?thesis using r i page_quad_sample latched_state_latched by blast
qed


section \<open>Properties of the mode toggle and of the capture paths\<close>

lemma latched_state_reachable: "reachable latched_state"
  unfolding latched_state_def by (intro reachable.intros)

text \<open>
  C6 as stated fails: after the auto-capture effect has fired, \<open>toggleAutoMode\<close> leaves
  \<open>autoCapturing\<close> set.
\<close>

theorem toggleAutoMode_keeps_autoCapturing_counterexample:
  "reachable latched_state \<and> autoCapturing (toggleAutoMode latched_state) \<noteq> False"
  using latched_state_reachable latched_state_latched by (simp add: toggleAutoMode_def)

text \<open>
  C6, amended: toggling the capture mode zeroes \<open>stableDetectionCount\<close> and
  \<open>consecutiveGoodDetections\<close> and flips \<open>autoMode\<close>; it leaves \<open>autoCapturing\<close> as it was.
\<close>

theorem toggleAutoMode_resets_counters:
  "stableDetectionCount (toggleAutoMode s) = 0 \<and>
   consecutiveGoodDetections (toggleAutoMode s) = 0 \<and>
   autoMode (toggleAutoMode s) = (\<not> autoMode s) \<and>
   autoCapturing (toggleAutoMode s) = autoCapturing s"
  by (simp add: toggleAutoMode_def)

lemma handleCapture_state: "fst (handleCapture env s) = s"
  by (simp add: handleCapture_def split: option.splits)

lemma handleCapture_latched:
  "snd (handleCapture env (s\<lparr>autoCapturing := True\<rparr>)) = snd (handleCapture env s)"
  by (cases "detectedCorners s") (simp_all add: handleCapture_def)

lemma effect_fired_state:
  assumes "snd (autoCaptureEffect s) \<noteq> None"
  shows "\<exists>delay. autoCaptureEffect s = (s\<lparr>autoCapturing := True\<rparr>, Some delay)"
  using assms by (auto simp: autoCaptureEffect_def split: if_splits)

lemma afterHandleCapture_made:
  "afterHandleCapture p s (Some (imageUri, corners)) =
     \<lparr>page = DocumentScannerApp_handleCapture imageUri corners p, camera = None\<rparr>"
  by (simp add: afterHandleCapture_def Let_def cameraRendered_def
      DocumentScannerApp_handleCapture_def)

lemma captureButtonClick_enabled:
  assumes "isGoodDetection s" "\<not> autoCapturing s"
  shows "captureButtonClick env p s = afterHandleCapture p s (snd (handleCapture env s))"
  using assms handleCapture_state [of env s]
  by (cases "handleCapture env s") (simp add: captureButtonClick_def)

lemma autoCapture_fired:
  assumes "snd (autoCaptureEffect s) \<noteq> None"
  shows "autoCapture v env p samples s =
     afterHandleCapture p (fst (run v samples (s\<lparr>autoCapturing := True\<rparr>)))
       (snd (handleCapture env s))"
proof -
  from effect_fired_state [OF assms] obtain delay where
    "autoCaptureEffect s = (s\<lparr>autoCapturing := True\<rparr>, Some delay)" by blast
  then show ?thesis by (simp add: autoCapture_def Let_def handleCapture_latched)
qed

lemma detect_good_corners:
  assumes "good_sample v (Some corners)"
  shows "detectedCorners (detectDocument v (Some corners) now s) = Some corners"
    and "isGoodDetection (detectDocument v (Some corners) now s)"
  using assms by (auto simp: good_sample_def detectDocument_def Let_def)

lemma one_good_state_fields:
  "reachable one_good_state" "isGoodDetection one_good_state" "\<not> autoCapturing one_good_state"
  "autoMode one_good_state" "consecutiveGoodDetections one_good_state = 1"
  "stableDetectionCount one_good_state = 1" "lastGoodDetectionTime one_good_state = 1000"
  "detectedCorners one_good_state = Some page_quad"
  unfolding one_good_state_def
  by (simp_all add: reach_detect reach_initial detect_good_corners detect_keeps detect_good
      page_quad_sample) (simp_all add: initial_state_def)

lemma three_good_state_fields:
  "reachable three_good_state" "\<not> autoCapturing three_good_state" "autoMode three_good_state"
  "consecutiveGoodDetections three_good_state = 3"
  "detectedCorners three_good_state = Some page_quad"
  unfolding three_good_state_def
  by (simp_all add: reach_detect one_good_state_fields detect_good_corners detect_keeps
      detect_good page_quad_sample)

lemma no_context_no_call: "snd (handleCapture no_context_env s) = None"
  by (simp add: handleCapture_def no_context_env_def split: option.splits)

lemma ready_call:
  "detectedCorners s = Some corners \<Longrightarrow>
     snd (handleCapture ready_env s) = Some (''data:image/jpeg'', corners)"
  by (simp add: handleCapture_def ready_env_def)




section \<open>Properties of the normalisation\<close>

lemma math_round_bounds: "\<bar>real_of_int (math_round r) - r\<bar> \<le> 1 / 2"
  unfolding math_round_def by linarith

lemma math_round_mono: "a \<le> b \<Longrightarrow> math_round a \<le> math_round b"
  unfolding math_round_def by (simp add: floor_mono)

lemma math_round_int: "math_round (real_of_int n) = n"
  unfolding math_round_def by linarith

text \<open>
  C5 as stated fails: a 200 by 100 cropped image is normalised to 2480 by 1240, so the
  longer side of the output is 2480 and not 1240.
\<close>

theorem correctPerspective_long_side_counterexample:
  "correctPerspective True True 200 100 = Some (2480, 1240) \<and> max (2480::int) 1240 \<noteq> 1240"
  by (simp add: correctPerspective_def Let_def math_round_def)

text \<open>
  C5, amended: for a decoded cropped image, with the output canvas and its context there,
  the normalised output has its shorter side equal to 1240: the width when the image is
  taller than wide, the height otherwise. The output is at least as tall as wide exactly
  in the first case, and its other side is the value that keeps the image's aspect ratio,
  rounded to an integer (off by at most one half).
\<close>

theorem correctPerspective_short_side:
  assumes "0 < imgWidth" and "0 < imgHeight"
  shows "\<exists>outputWidth outputHeight.
     correctPerspective True True imgWidth imgHeight = Some (outputWidth, outputHeight) \<and>
     min outputWidth outputHeight = 1240 \<and>
     (if imgHeight > imgWidth
      then outputWidth = 1240 \<and> outputHeight \<ge> outputWidth \<and>
           \<bar>real_of_int outputHeight - 1240 * real imgHeight / real imgWidth\<bar> \<le> 1 / 2
      else outputHeight = 1240 \<and> outputWidth \<ge> outputHeight \<and>
           \<bar>real_of_int outputWidth - 1240 * real imgWidth / real imgHeight\<bar> \<le> 1 / 2)"
proof (cases "imgHeight > imgWidth")
  case True
  let ?h = "math_round (1240 / (real imgWidth / real imgHeight))"
  have "1240 \<le> 1240 / (real imgWidth / real imgHeight)"
    using True assms by (simp add: field_simps)
  then have "math_round (real_of_int 1240) \<le> ?h" by (intro math_round_mono) simp
  then have ge: "1240 \<le> ?h" by (simp only: math_round_int)
  have b: "\<bar>real_of_int ?h - 1240 * real imgHeight / real imgWidth\<bar> \<le> 1 / 2"
    using math_round_bounds [of "1240 / (real imgWidth / real imgHeight)"] by simp
  show ?thesis using True ge b by (simp add: correctPerspective_def Let_def)
next
  case False
  let ?w = "math_round (1240 * (real imgWidth / real imgHeight))"
  have "1240 \<le> 1240 * (real imgWidth / real imgHeight)"
    using False assms by (simp add: field_simps)
  then have "math_round (real_of_int 1240) \<le> ?w" by (intro math_round_mono) simp
  then have ge: "1240 \<le> ?w" by (simp only: math_round_int)
  have b: "\<bar>real_of_int ?w - 1240 * real imgWidth / real imgHeight\<bar> \<le> 1 / 2"
    using math_round_bounds [of "1240 * (real imgWidth / real imgHeight)"] by simp
  show ?thesis using False ge b by (simp add: correctPerspective_def Let_def)
qed

theorem correctPerspective_short_side_witness:
  "(0::nat) < 200 \<and> (0::nat) < 100 \<and>
   correctPerspective True True 200 100 = Some (2480, 1240) \<and>
   correctPerspective True True 100 200 = Some (1240, 2480)"
proof -
  have a: "(0::nat) < 200" "(0::nat) < 100" by simp_all
  from correctPerspective_short_side [OF a] correctPerspective_short_side [OF a(2) a(1)]
  show ?thesis by (simp add: correctPerspective_def Let_def math_round_def)
qed

section \<open>Properties of the corner orderings\<close>

lemma mset_insert_cmp: "mset (insert_cmp f a bs) = add_mset a (mset bs)"
  by (induction bs) auto

lemma mset_array_sort: "mset (array_sort f xs) = mset xs"
  by (induction xs) (auto simp: array_sort_def mset_insert_cmp)

lemma set_insert_cmp: "set (insert_cmp f a bs) = insert a (set bs)"
  by (induction bs) auto

lemma array_sort_Cons: "array_sort f (a # as) = insert_cmp f a (array_sort f as)"
  by (simp add: array_sort_def)

lemma array_sort_sorted_id:
  "sorted_wrt (\<lambda>a b. f a b \<le> 0) xs \<Longrightarrow> array_sort f xs = xs"
proof (induction xs)
  case Nil
  show ?case by (simp add: array_sort_def)
next
  case (Cons a as)
  then have "array_sort f as = as" by simp
  then show ?case using Cons.prems by (cases as) (simp_all add: array_sort_Cons)
qed

lemma sorted_insert_cmp:
  assumes total: "\<And>a b. f a b \<le> 0 \<or> f b a \<le> 0"
    and trans: "\<And>a b c. f a b \<le> 0 \<Longrightarrow> f b c \<le> 0 \<Longrightarrow> f a c \<le> 0"
  shows "sorted_wrt (\<lambda>a b. f a b \<le> 0) bs \<Longrightarrow> sorted_wrt (\<lambda>a b. f a b \<le> 0) (insert_cmp f a bs)"
proof (induction bs)
  case Nil
  show ?case by simp
next
  case (Cons b bs)
  show ?case
  proof (cases "f a b \<le> 0")
    case True
    with Cons.prems trans show ?thesis by auto
  next
    case False
    with total have "f b a \<le> 0" by blast
    with False Cons show ?thesis by (auto simp: set_insert_cmp)
  qed
qed

lemma array_sort_sorted:
  assumes total: "\<And>a b. f a b \<le> 0 \<or> f b a \<le> 0"
    and trans: "\<And>a b c. f a b \<le> 0 \<Longrightarrow> f b c \<le> 0 \<Longrightarrow> f a c \<le> 0"
  shows "sorted_wrt (\<lambda>a b. f a b \<le> 0) (array_sort f xs)"
proof (induction xs)
  case Nil
  show ?case by (simp add: array_sort_def)
next
  case (Cons a as)
  then show ?case
    unfolding array_sort_Cons by (intro sorted_insert_cmp total) (blast intro: trans)+
qed

lemma quadrant_compare_le:
  "quadrant_compare c a b \<le> 0 \<longleftrightarrow>
     getQuadrant a c < getQuadrant b c \<or>
     (getQuadrant a c = getQuadrant b c \<and>
      hypot (px b - px c) (py b - py c) \<le> hypot (px a - px c) (py a - py c))"
  by (auto simp: quadrant_compare_def Let_def)

lemma center_of_mset:
  assumes "mset xs = mset ys"
  shows "center_of xs = center_of ys"
proof -
  have l: "length xs = length ys" using assms by (rule mset_eq_length)
  have "mset (map px xs) = mset (map px ys)" "mset (map py xs) = mset (map py ys)"
    using assms by simp_all
  then have "sum_list (map px xs) = sum_list (map px ys)" "sum_list (map py xs) = sum_list (map py ys)"
    by (metis sum_mset_sum_list)+
  then show ?thesis by (simp add: center_of_def foldl_add_same l)
qed

lemma DocumentCamera_sortCorners_idem:
  "DocumentCamera_sortCorners (DocumentCamera_sortCorners q) = DocumentCamera_sortCorners q"
proof (cases "length q = 4")
  case False
  then show ?thesis by (simp add: DocumentCamera_sortCorners_def)
next
  case True
  let ?f = "quadrant_compare (center_of q)"
  let ?s = "array_sort ?f q"
  have c: "center_of ?s = center_of q" by (rule center_of_mset) (rule mset_array_sort)
  have "sorted_wrt (\<lambda>a b. ?f a b \<le> 0) ?s"
    by (rule array_sort_sorted) (auto simp: quadrant_compare_le)
  then have "array_sort ?f ?s = ?s" by (rule array_sort_sorted_id)
  then show ?thesis using True by (simp add: DocumentCamera_sortCorners_def c length_array_sort)
qed

lemma sort_pair:
  assumes "length xs = 2"
  shows "\<exists>u w. array_sort (\<lambda>a b. px a - px b) xs = [u, w] \<and> px u \<le> px w \<and>
               mset [u, w] = mset xs"
proof -
  from assms obtain a b where xs: "xs = [a, b]"
    by (auto simp: length_Suc_conv numeral_2_eq_2)
  show ?thesis by (cases "px a \<le> px b") (auto simp: xs array_sort_def)
qed

lemma split_assemble_four:
  assumes "length q = 4" and "length (split_assemble q) = 4"
  shows "\<exists>t0 t1 b0 b1. split_assemble q = [t0, t1, b1, b0] \<and>
           py t0 < py (center_of q) \<and> py t1 < py (center_of q) \<and>
           py b0 \<ge> py (center_of q) \<and> py b1 \<ge> py (center_of q) \<and>
           px t0 \<le> px t1 \<and> px b0 \<le> px b1 \<and> mset [t0, t1, b1, b0] = mset q"
proof -
  let ?c = "py (center_of q)"
  let ?top = "filter (\<lambda>corner. py corner < ?c) q"
  let ?bottom = "filter (\<lambda>corner. py corner \<ge> ?c) q"
  let ?ts = "array_sort (\<lambda>a b. px a - px b) ?top"
  let ?bs = "array_sort (\<lambda>a b. px a - px b) ?bottom"
  have b_not: "?bottom = filter (\<lambda>corner. \<not> py corner < ?c) q"
    by (simp add: not_less)
  have "length ?top + length ?bottom = length q"
    unfolding b_not by (rule sum_length_filter_compl)
  then have sum: "length ?ts + length ?bs = 4"
    using assms(1) by (simp add: length_array_sort)
  have "length (split_assemble q) =
      (if length ?ts > 0 then 1 else 0) + (if length ?ts > 1 then 1 else 0) +
      (if length ?bs > 0 then 1 else 0) + (if length ?bs > 1 then 1 else 0)"
    by (simp add: split_assemble_def Let_def del: length_greater_0_conv)
  with assms(2) have "length ?ts > 1 \<and> length ?bs > 1"
    by (simp split: if_splits del: length_greater_0_conv)
  with sum have two: "length ?top = 2" "length ?bottom = 2"
    by (simp_all add: length_array_sort)
  from sort_pair [OF two(1)] obtain t0 t1 where
    t: "?ts = [t0, t1]" "px t0 \<le> px t1" "mset [t0, t1] = mset ?top" by blast
  from sort_pair [OF two(2)] obtain b0 b1 where
    b: "?bs = [b0, b1]" "px b0 \<le> px b1" "mset [b0, b1] = mset ?bottom" by blast
  have "set [t0, t1] = set ?top" using t(3) by (rule mset_eq_setD)
  then have tp: "py t0 < ?c" "py t1 < ?c" by auto
  have "set [b0, b1] = set ?bottom" using b(3) by (rule mset_eq_setD)
  then have bp: "py b0 \<ge> ?c" "py b1 \<ge> ?c" by auto
  have "mset ?top + mset ?bottom = mset q"
    unfolding b_not by (simp add: mset_filter multiset_partition [symmetric])
  then have m: "mset [t0, t1, b1, b0] = mset q"
    using t(3) b(3) by (simp add: ac_simps) (metis add_mset_commute union_mset_add_mset_left union_mset_add_mset_right add.right_neutral add.left_neutral)
  have "split_assemble q = [t0, t1, b1, b0]"
    by (simp add: split_assemble_def Let_def t(1) b(1))
  with tp bp t(2) b(2) m show ?thesis by blast
qed

lemma split_assemble_ordered:
  assumes "length q = 4" and "length (split_assemble q) = 4"
  shows "split_ordered (split_assemble q)"
proof -
  from split_assemble_four [OF assms] obtain t0 t1 b0 b1 where
    r: "split_assemble q = [t0, t1, b1, b0]"
      "py t0 < py (center_of q)" "py t1 < py (center_of q)"
      "py b0 \<ge> py (center_of q)" "py b1 \<ge> py (center_of q)"
      "px t0 \<le> px t1" "px b0 \<le> px b1" "mset [t0, t1, b1, b0] = mset q"
    by blast
  have "center_of [t0, t1, b1, b0] = center_of q" using r(8) by (rule center_of_mset)
  with r show ?thesis by (simp add: split_ordered_def)
qed

lemma split_ordered_assemble:
  assumes "split_ordered q"
  shows "split_assemble q = (if px (q ! 3) < px (q ! 2) then q else [q ! 0, q ! 1, q ! 3, q ! 2])"
proof -
  from assms obtain topLeft topRight bottomRight bottomLeft
    where q: "q = [topLeft, topRight, bottomRight, bottomLeft]"
    by (auto simp: split_ordered_def split: list.splits)
  from assms have o: "py topLeft < py (center_of q)" "py topRight < py (center_of q)"
    "py bottomRight \<ge> py (center_of q)" "py bottomLeft \<ge> py (center_of q)"
    "px topLeft \<le> px topRight" "px bottomLeft \<le> px bottomRight"
    by (simp_all add: split_ordered_def q)
  have top: "filter (\<lambda>corner. py corner < py (center_of q)) q = [topLeft, topRight]"
    using o by (simp add: q)
  have bottom: "filter (\<lambda>corner. py corner \<ge> py (center_of q)) q = [bottomRight, bottomLeft]"
    using o by (simp add: q)
  have st: "array_sort (\<lambda>a b. px a - px b) [topLeft, topRight] = [topLeft, topRight]"
    using o by (simp add: array_sort_def)
  have sb: "array_sort (\<lambda>a b. px a - px b) [bottomRight, bottomLeft] =
      (if px bottomLeft < px bottomRight then [bottomLeft, bottomRight]
       else [bottomRight, bottomLeft])"
    using o by (simp add: array_sort_def)
  show ?thesis
    unfolding split_assemble_def Let_def top bottom st sb by (simp add: q)
qed

lemma split_functions_of_ordered:
  assumes "split_ordered q"
  shows "sortCorners q = split_assemble q" "ImageProcessing_sortCorners q = split_assemble q"
proof -
  from assms have l: "length q = 4" by (auto simp: split_ordered_def split: list.splits)
  then have "length (split_assemble q) = 4"
    by (simp add: split_ordered_assemble [OF assms])
  with l show "sortCorners q = split_assemble q"
    "ImageProcessing_sortCorners q = split_assemble q"
    by (simp_all add: sortCorners_def ImageProcessing_sortCorners_def Let_def)
qed

lemma split_idempotent:
  assumes "length q = 4 \<and> length (split_assemble q) = 4 \<longrightarrow>
      px (split_assemble q ! 3) \<noteq> px (split_assemble q ! 2)"
  shows "sortCorners (sortCorners q) = sortCorners q"
    and "ImageProcessing_sortCorners (ImageProcessing_sortCorners q) = ImageProcessing_sortCorners q"
proof -
  show "sortCorners (sortCorners q) = sortCorners q"
  proof (cases "length q = 4 \<and> length (split_assemble q) = 4")
    case True
    then have o: "split_ordered (split_assemble q)" by (simp add: split_assemble_ordered)
    from True assms have d: "px (split_assemble q ! 3) \<noteq> px (split_assemble q ! 2)" by blast
    from o have "px (split_assemble q ! 3) \<le> px (split_assemble q ! 2)"
      by (auto simp: split_ordered_def split: list.splits)
    with d have "px (split_assemble q ! 3) < px (split_assemble q ! 2)" by simp
    then have "split_assemble (split_assemble q) = split_assemble q"
      by (simp add: split_ordered_assemble [OF o])
    with True show ?thesis by (simp add: sortCorners_def)
  next
    case False
    then show ?thesis by (auto simp: sortCorners_def)
  qed
  show "ImageProcessing_sortCorners (ImageProcessing_sortCorners q) = ImageProcessing_sortCorners q"
  proof (cases "length q = 4 \<and> length (split_assemble q) = 4")
    case True
    then have o: "split_ordered (split_assemble q)" by (simp add: split_assemble_ordered)
    from True assms have d: "px (split_assemble q ! 3) \<noteq> px (split_assemble q ! 2)" by blast
    from o have "px (split_assemble q ! 3) \<le> px (split_assemble q ! 2)"
      by (auto simp: split_ordered_def split: list.splits)
    with d have "px (split_assemble q ! 3) < px (split_assemble q ! 2)" by simp
    then have "split_assemble (split_assemble q) = split_assemble q"
      by (simp add: split_ordered_assemble [OF o])
    with True show ?thesis by (simp add: ImageProcessing_sortCorners_def Let_def)
  next
    case False
    then show ?thesis by (auto simp: ImageProcessing_sortCorners_def Let_def)
  qed
qed

lemma convex_centers:
  "center_of convex_quad = \<lparr>px = 29 / 4, py = 33 / 4\<rparr>"
  "center_of convex_sorted = \<lparr>px = 29 / 4, py = 33 / 4\<rparr>"
  by (simp_all add: center_of_def convex_quad_def convex_sorted_def)

lemma convex_ordered: "split_ordered convex_quad" "split_ordered convex_sorted"
  unfolding split_ordered_def convex_centers
  by (simp_all add: convex_quad_def convex_sorted_def convex_centers [unfolded convex_quad_def convex_sorted_def])

lemma convex_split:
  "split_assemble convex_quad = convex_sorted" "split_assemble convex_sorted = convex_quad"
  by (simp_all add: split_ordered_assemble [OF convex_ordered(1)]
      split_ordered_assemble [OF convex_ordered(2)])
     (simp_all add: convex_quad_def convex_sorted_def)

text \<open>
  C9 as stated fails for the top/bottom split: \<open>convex_sorted\<close> is in top-left,
  top-right, bottom-right, bottom-left order and is what the split returns for
  \<open>convex_quad\<close>, and the split still returns another order for it, in the library
  function and in the copy of \<open>ImageProcessing\<close> alike.
\<close>

theorem split_ordering_moves_ordered_counterexample:
  "split_ordered convex_sorted \<and>
   sortCorners convex_quad = convex_sorted \<and>
   sortCorners convex_sorted \<noteq> convex_sorted \<and>
   sortCorners (sortCorners convex_quad) \<noteq> sortCorners convex_quad \<and>
   ImageProcessing_sortCorners convex_quad = convex_sorted \<and>
   ImageProcessing_sortCorners convex_sorted \<noteq> convex_sorted \<and>
   ImageProcessing_sortCorners (ImageProcessing_sortCorners convex_quad) \<noteq>
     ImageProcessing_sortCorners convex_quad"
proof -
  have d: "convex_quad \<noteq> convex_sorted" by (simp add: convex_quad_def convex_sorted_def)
  have a: "sortCorners convex_quad = convex_sorted" "sortCorners convex_sorted = convex_quad"
    "ImageProcessing_sortCorners convex_quad = convex_sorted"
    "ImageProcessing_sortCorners convex_sorted = convex_quad"
    by (simp_all add: split_functions_of_ordered convex_ordered convex_split)
  from d convex_ordered(2) show ?thesis by (simp add: a)
qed

text \<open>
  C9, amended: the quadrant sort of \<open>DocumentCamera\<close> is idempotent on every input. The
  top/bottom split (the library function and the copy in \<open>ImageProcessing\<close>) returns four
  corners in top-left, top-right, bottom-right, bottom-left order whenever it returns
  four, and it returns an already ordered quadrilateral unchanged when the two lower
  corners have different \<open>x\<close> coordinates; when they share \<open>x\<close> it swaps them. So
  applying the split a second time returns the same order for every input whose ordered
  output does not have two lower corners of equal \<open>x\<close>.
\<close>

theorem corner_ordering_idempotent_unless_tie:
  "DocumentCamera_sortCorners (DocumentCamera_sortCorners q) = DocumentCamera_sortCorners q \<and>
   (length q = 4 \<and> length (split_assemble q) = 4 \<longrightarrow>
      split_ordered (sortCorners q) \<and> split_ordered (ImageProcessing_sortCorners q)) \<and>
   (split_ordered q \<and> px (q ! 3) \<noteq> px (q ! 2) \<longrightarrow>
      sortCorners q = q \<and> ImageProcessing_sortCorners q = q) \<and>
   (split_ordered q \<and> px (q ! 3) = px (q ! 2) \<longrightarrow>
      sortCorners q = [q ! 0, q ! 1, q ! 3, q ! 2] \<and>
      ImageProcessing_sortCorners q = [q ! 0, q ! 1, q ! 3, q ! 2]) \<and>
   ((length q = 4 \<and> length (split_assemble q) = 4 \<longrightarrow>
       px (split_assemble q ! 3) \<noteq> px (split_assemble q ! 2)) \<longrightarrow>
      sortCorners (sortCorners q) = sortCorners q \<and>
      ImageProcessing_sortCorners (ImageProcessing_sortCorners q) = ImageProcessing_sortCorners q)"
proof (intro conjI impI)
  show "DocumentCamera_sortCorners (DocumentCamera_sortCorners q) = DocumentCamera_sortCorners q"
    by (rule DocumentCamera_sortCorners_idem)
next
  assume a: "length q = 4 \<and> length (split_assemble q) = 4"
  then have "split_ordered (split_assemble q)" by (simp add: split_assemble_ordered)
  with a show "split_ordered (sortCorners q)" by (simp add: sortCorners_def)
next
  assume a: "length q = 4 \<and> length (split_assemble q) = 4"
  then have "split_ordered (split_assemble q)" by (simp add: split_assemble_ordered)
  with a show "split_ordered (ImageProcessing_sortCorners q)"
    by (simp add: ImageProcessing_sortCorners_def Let_def)
next
  assume a: "split_ordered q \<and> px (q ! 3) \<noteq> px (q ! 2)"
  then have "px (q ! 3) \<le> px (q ! 2)" by (auto simp: split_ordered_def split: list.splits)
  with a have "px (q ! 3) < px (q ! 2)" by simp
  with a show "sortCorners q = q"
    by (simp add: split_functions_of_ordered split_ordered_assemble)
next
  assume a: "split_ordered q \<and> px (q ! 3) \<noteq> px (q ! 2)"
  then have "px (q ! 3) \<le> px (q ! 2)" by (auto simp: split_ordered_def split: list.splits)
  with a have "px (q ! 3) < px (q ! 2)" by simp
  with a show "ImageProcessing_sortCorners q = q"
    by (simp add: split_functions_of_ordered split_ordered_assemble)
next
  assume "split_ordered q \<and> px (q ! 3) = px (q ! 2)"
  then show "sortCorners q = [q ! 0, q ! 1, q ! 3, q ! 2]"
    by (simp add: split_functions_of_ordered split_ordered_assemble)
next
  assume "split_ordered q \<and> px (q ! 3) = px (q ! 2)"
  then show "ImageProcessing_sortCorners q = [q ! 0, q ! 1, q ! 3, q ! 2]"
    by (simp add: split_functions_of_ordered split_ordered_assemble)
next
  assume "length q = 4 \<and> length (split_assemble q) = 4 \<longrightarrow>
       px (split_assemble q ! 3) \<noteq> px (split_assemble q ! 2)"
  then show "sortCorners (sortCorners q) = sortCorners q" by (rule split_idempotent)
next
  assume "length q = 4 \<and> length (split_assemble q) = 4 \<longrightarrow>
       px (split_assemble q ! 3) \<noteq> px (split_assemble q ! 2)"
  then show "ImageProcessing_sortCorners (ImageProcessing_sortCorners q) =
      ImageProcessing_sortCorners q" by (rule split_idempotent)
qed

lemma square_center: "center_of square_quad = \<lparr>px = 5, py = 5\<rparr>"
  by (simp add: center_of_def square_quad_def)

lemma square_split_ordered: "split_ordered square_quad"
  using square_center by (simp add: split_ordered_def square_quad_def)

lemma square_quadrant_fixed: "DocumentCamera_sortCorners square_quad = square_quad"
proof -
  have "sorted_wrt (\<lambda>a b. quadrant_compare \<lparr>px = 5, py = 5\<rparr> a b \<le> 0) square_quad"
    by (simp add: square_quad_def quadrant_compare_le getQuadrant_def)
  then have "array_sort (quadrant_compare \<lparr>px = 5, py = 5\<rparr>) square_quad = square_quad"
    by (rule array_sort_sorted_id)
  moreover have "length square_quad = 4" by (simp add: square_quad_def)
  ultimately show ?thesis by (simp add: DocumentCamera_sortCorners_def square_center)
qed

theorem corner_ordering_idempotent_unless_tie_witness:
  "split_ordered square_quad \<and> px (square_quad ! 3) \<noteq> px (square_quad ! 2) \<and>
   length square_quad = 4 \<and> length (split_assemble square_quad) = 4 \<and>
   DocumentCamera_sortCorners square_quad = square_quad \<and>
   DocumentCamera_sortCorners (DocumentCamera_sortCorners square_quad) = square_quad \<and>
   sortCorners square_quad = square_quad \<and>
   sortCorners (sortCorners square_quad) = square_quad \<and>
   ImageProcessing_sortCorners square_quad = square_quad \<and>
   ImageProcessing_sortCorners (ImageProcessing_sortCorners square_quad) = square_quad \<and>
   split_ordered convex_quad \<and> px (convex_quad ! 3) = px (convex_quad ! 2) \<and>
   sortCorners convex_quad = convex_sorted \<and>
   ImageProcessing_sortCorners convex_quad = convex_sorted"
proof -
  have sq: "px (square_quad ! 3) \<noteq> px (square_quad ! 2)" "length square_quad = 4"
    by (simp_all add: square_quad_def)
  have cq: "px (convex_quad ! 3) = px (convex_quad ! 2)"
    "[convex_quad ! 0, convex_quad ! 1, convex_quad ! 3, convex_quad ! 2] = convex_sorted"
    by (simp_all add: convex_quad_def convex_sorted_def)
  note S = corner_ordering_idempotent_unless_tie [of square_quad]
  note C = corner_ordering_idempotent_unless_tie [of convex_quad]
  from S square_split_ordered sq(1) have
    f: "sortCorners square_quad = square_quad" "ImageProcessing_sortCorners square_quad = square_quad"
    by blast+
  then have l: "length (split_assemble square_quad) = 4"
    using sq(2) by (simp add: sortCorners_def)
  from C convex_ordered(1) cq(1) have
    "sortCorners convex_quad = [convex_quad ! 0, convex_quad ! 1, convex_quad ! 3, convex_quad ! 2]"
    "ImageProcessing_sortCorners convex_quad =
       [convex_quad ! 0, convex_quad ! 1, convex_quad ! 3, convex_quad ! 2]"
    by blast+
  then have c: "sortCorners convex_quad = convex_sorted"
    "ImageProcessing_sortCorners convex_quad = convex_sorted"
    by (simp_all only: cq(2))
  show ?thesis
    using square_split_ordered sq l f square_quadrant_fixed convex_ordered(1) cq(1) c by simp
qed

end
